theory Spec2Isabelle
  imports Main
begin

section \<open>The JSON anonymiser of \<^verbatim>\<open>src/misc/data_anonymiser.py\<close>\<close>

text \<open>
  A Python string is a list of characters; a \<^typ>\<open>char\<close> stands for a code point
  below 256, and the character classes below are Python's classes on that range.
  The values \<^verbatim>\<open>json.load\<close> produces are the constructors of \<open>json\<close>:
  a dict is the list of its items in insertion order (the keys of a dict are
  distinct), and \<open>JOther\<close> is any other leaf (a float, or an object that is not
  JSON), which the code never inspects.
\<close>

datatype json =
    JNull
  | JBool bool
  | JNum int
  | JOther nat
  | JStr string
  | JList "json list"
  | JDict "(string \<times> json) list"

subsection \<open>Regular expressions, as far as the two patterns need them\<close>

text \<open>
  \<open>rests e s\<close> lists what is left of \<open>s\<close> after each way of matching \<open>e\<close>
  at its start, the greedy one first; \<^verbatim>\<open>e.match(s)\<close> is truthy when there is one.
\<close>

datatype rx =
    Cls "char \<Rightarrow> bool"
  | AtLeast nat "char \<Rightarrow> bool"
  | Opt rx
  | Seq rx rx

fun rests :: "rx \<Rightarrow> string \<Rightarrow> string list" where
  "rests (Cls p) s = (case s of [] \<Rightarrow> [] | c # cs \<Rightarrow> if p c then [cs] else [])"
| "rests (AtLeast n p) s =
     map (\<lambda>k. drop k s) (rev [n ..< Suc (length (takeWhile p s))])"
| "rests (Opt e) s = rests e s @ [s]"
| "rests (Seq e1 e2) s = concat (map (rests e2) (rests e1 s))"

definition re_match :: "rx \<Rightarrow> string \<Rightarrow> bool" where
  "re_match e s = (rests e s \<noteq> [])"

definition is_digit :: "char \<Rightarrow> bool" where
  "is_digit c = (let n = (of_char c :: nat) in 48 \<le> n \<and> n \<le> 57)"

definition is_space :: "char \<Rightarrow> bool" where
  "is_space c =
     (let n = (of_char c :: nat)
      in (9 \<le> n \<and> n \<le> 13) \<or> (28 \<le> n \<and> n \<le> 32) \<or> n = 133 \<or> n = 160)"

definition not_at :: "char \<Rightarrow> bool" where
  "not_at c = (c \<noteq> CHR ''@'')"

definition phone_body :: "char \<Rightarrow> bool" where
  "phone_body c =
     (is_digit c \<or> is_space c \<or> c = CHR ''-'' \<or> c = CHR ''('' \<or> c = CHR '')'')"

definition EMAIL_REGEX :: rx where
  "EMAIL_REGEX =
     Seq (AtLeast 1 not_at) (Seq (Cls (\<lambda>c. c = CHR ''@''))
       (Seq (AtLeast 1 not_at) (Seq (Cls (\<lambda>c. c = CHR ''.'')) (AtLeast 1 not_at))))"

definition PHONE_REGEX :: rx where
  "PHONE_REGEX =
     Seq (Opt (Cls (\<lambda>c. c = CHR ''+''))) (Seq (Cls is_digit)
       (Seq (AtLeast 6 phone_body) (Cls is_digit)))"

definition startswith :: "string \<Rightarrow> string \<Rightarrow> bool" where
  "startswith s p = (take (length p) s = p)"

subsection \<open>The pseudonym registry\<close>

text \<open>
  The four module-level dicts. A dict is its list of items in insertion order, so
  \<^verbatim>\<open>len(mapping)\<close> is the length of the list.
\<close>

type_synonym pydict = "(string \<times> string) list"

record registry =
  url_map :: pydict
  email_map :: pydict
  phone_map :: pydict
  text_map :: pydict

definition empty_registry :: registry where
  "empty_registry = \<lparr>url_map = [], email_map = [], phone_map = [], text_map = []\<rparr>"

text \<open>The digit of a number below ten.\<close>

definition digit_char :: "nat \<Rightarrow> char" where
  "digit_char d = ''0123456789'' ! d"

text \<open>The decimal numeral of a number, as an f-string formats it.\<close>

fun str_nat :: "nat \<Rightarrow> string" where
  "str_nat n =
     (if n < 10 then [digit_char n] else str_nat (n div 10) @ [digit_char (n mod 10)])"

declare str_nat.simps [simp del]

definition anonymise_value :: "string \<Rightarrow> pydict \<Rightarrow> string \<Rightarrow> string \<times> pydict" where
  "anonymise_value val mapping prefix =
     (case map_of mapping val of
        None \<Rightarrow>
          (let t = prefix @ str_nat (length mapping + 1)
           in (t, mapping @ [(val, t)]))
      | Some t \<Rightarrow> (t, mapping))"

definition anonymise_string :: "string \<Rightarrow> registry \<Rightarrow> string \<times> registry" where
  "anonymise_string s r =
     (if re_match EMAIL_REGEX s then
        (let (t, m) = anonymise_value s (email_map r) ''email''
         in (t, r\<lparr>email_map := m\<rparr>))
      else if re_match PHONE_REGEX s then
        (let (t, m) = anonymise_value s (phone_map r) ''phone''
         in (t, r\<lparr>phone_map := m\<rparr>))
      else if startswith s ''http'' then
        (let (t, m) = anonymise_value s (url_map r) ''url''
         in (t, r\<lparr>url_map := m\<rparr>))
      else
        (let (t, m) = anonymise_value s (text_map r) ''text''
         in (t, r\<lparr>text_map := m\<rparr>)))"

subsection \<open>The field-name tables\<close>

definition ANON_BLOCKS :: "string set" where
  "ANON_BLOCKS =
     {''data_providers'', ''contacts'', ''citations'', ''authors'', ''unique_datasets'',
      ''dataset_identifiers'', ''datasets'', ''data_files'', ''data_resources'',
      ''data_collections'', ''data_licences'', ''data_tags''}"

definition PIPELINE_FIELDS :: "string set" where
  "PIPELINE_FIELDS = {''script'', ''endpoints''}"

definition SKIP_KEYS :: "string set" where
  "SKIP_KEYS = {''location'', ''id'', ''uuid''}"

text \<open>\<^verbatim>\<open>str.lower\<close> on code points below 256.\<close>

definition lower_char :: "char \<Rightarrow> char" where
  "lower_char c =
     (let n = (of_char c :: nat)
      in if (65 \<le> n \<and> n \<le> 90) \<or> (192 \<le> n \<and> n \<le> 214) \<or> (216 \<le> n \<and> n \<le> 222)
         then char_of (n + 32) else c)"

definition lower :: "string \<Rightarrow> string" where
  "lower s = map lower_char s"

subsection \<open>The tree walk\<close>

fun is_list :: "json \<Rightarrow> bool" where
  "is_list (JList xs) = True"
| "is_list v = False"

fun first_only :: "json \<Rightarrow> json" where
  "first_only (JList xs) = JList (take 1 xs)"
| "first_only v = v"

text \<open>The two assignments \<^verbatim>\<open>v = v[:1]\<close> at the head of the loop body.\<close>

definition limit_field :: "string \<Rightarrow> json \<Rightarrow> json" where
  "limit_field k v =
     (let v1 = (if k = ''data_files'' \<and> is_list v then first_only v else v)
      in if k = ''data_resources'' \<and> is_list v1 then first_only v1 else v1)"

lemma size_first_only: "size (first_only v) \<le> size v"
proof (cases v)
  case (JList xs)
  have "size_list size (take 1 xs) \<le> size_list size xs"
    by (cases xs) simp_all
  with JList show ?thesis by simp
qed simp_all

lemma size_limit_field: "size (limit_field k v) \<le> size v"
  unfolding limit_field_def Let_def
  using size_first_only [of v] size_first_only [of "first_only v"]
  by (simp split: if_splits)

lemma size_limit_field_less: "size (limit_field k v) < Suc (Suc (size v + n))"
  using size_limit_field [of k v] by simp

text \<open>
  \<open>anonymise obj parent_key force r\<close> is the call \<^verbatim>\<open>anonymise(obj, parent_key, force)\<close>
  with the four dicts in state \<open>r\<close>; it returns the new value and the dicts after the call.
  \<open>anonymise_elems\<close> is the list comprehension and \<open>anonymise_items\<close> the loop over
  \<^verbatim>\<open>obj.items()\<close>, which stores each result under its key in the new dict.
\<close>

function anonymise :: "json \<Rightarrow> string option \<Rightarrow> bool \<Rightarrow> registry \<Rightarrow> json \<times> registry"
  and anonymise_elems ::
    "json list \<Rightarrow> string option \<Rightarrow> bool \<Rightarrow> registry \<Rightarrow> json list \<times> registry"
  and anonymise_items ::
    "(string \<times> json) list \<Rightarrow> bool \<Rightarrow> registry \<Rightarrow> (string \<times> json) list \<times> registry"
where
  "anonymise (JDict kvs) parent_key force r =
     (let (kvs', r') = anonymise_items kvs force r in (JDict kvs', r'))"
| "anonymise (JList xs) parent_key force r =
     (let (ys, r') = anonymise_elems xs parent_key force r in (JList ys, r'))"
| "anonymise (JStr s) parent_key force r =
     (if force then (let (t, r') = anonymise_string s r in (JStr t, r')) else (JStr s, r))"
| "anonymise JNull parent_key force r = (JNull, r)"
| "anonymise (JBool b) parent_key force r = (JBool b, r)"
| "anonymise (JNum n) parent_key force r = (JNum n, r)"
| "anonymise (JOther x) parent_key force r = (JOther x, r)"
| "anonymise_elems [] parent_key force r = ([], r)"
| "anonymise_elems (x # xs) parent_key force r =
     (let (y, r1) = anonymise x parent_key force r;
          (ys, r2) = anonymise_elems xs parent_key force r1
      in (y # ys, r2))"
| "anonymise_items [] force r = ([], r)"
| "anonymise_items ((k, v0) # kvs) force r =
     (let v = limit_field k v0;
          (v', r1) =
            (if force \<or> lower k \<in> PIPELINE_FIELDS then
               (case v of
                  JStr s \<Rightarrow> (let (t, r') = anonymise_string s r in (JStr t, r'))
                | _ \<Rightarrow> anonymise v (Some k) True r)
             else if lower k \<in> ANON_BLOCKS then anonymise v (Some k) True r
             else if lower k \<in> SKIP_KEYS then (v, r)
             else anonymise v (Some k) False r);
          (kvs', r2) = anonymise_items kvs force r1
      in ((k, v') # kvs', r2))"
  by pat_completeness auto

termination
  apply (relation "measure (\<lambda>x. case x of
          Inl (v, _) \<Rightarrow> size v
        | Inr (Inl (xs, _)) \<Rightarrow> size_list size xs
        | Inr (Inr (kvs, _)) \<Rightarrow> size_list (size_prod (\<lambda>_. 0) size) kvs)")
  apply (simp_all add: size_limit_field_less)
  done

text \<open>
  One round of the loop body: the value stored under \<open>k\<close> and the dicts after it. In the
  forced branch the source calls \<^verbatim>\<open>anonymise_string\<close> on a string directly, which is what
  \<open>anonymise\<close> does with it under \<^verbatim>\<open>force=True\<close>; \<open>anonymise_items_Cons\<close> below proves that
  the loop of the source is this round followed by the rest of the loop.
\<close>

definition anonymise_item :: "string \<Rightarrow> json \<Rightarrow> bool \<Rightarrow> registry \<Rightarrow> json \<times> registry" where
  "anonymise_item k v0 force r =
     (let v = limit_field k v0
      in if force \<or> lower k \<in> PIPELINE_FIELDS \<or> lower k \<in> ANON_BLOCKS
         then anonymise v (Some k) True r
         else if lower k \<in> SKIP_KEYS then (v, r)
         else anonymise v (Some k) False r)"

subsection \<open>The walk under the interpreter's recursion limit\<close>

text \<open>
  Python bounds the depth of its call stack and raises \<^verbatim>\<open>RecursionError\<close> in the call that
  would exceed it. \<open>anonymise_in lc n\<close> is the call of \<^verbatim>\<open>anonymise\<close> when \<open>n\<close> more frames
  are allowed. Every call of a Python function takes one frame: \<^verbatim>\<open>anonymise\<close> itself,
  \<^verbatim>\<open>anonymise_string\<close> and \<^verbatim>\<open>anonymise_value\<close> below it, and the list comprehension
  where it has a frame of its own (\<open>lc = 1\<close> before Python 3.12, \<open>lc = 0\<close> since). An
  exception ends the walk, so the error is returned in place of the value and the dicts.
\<close>

datatype error = RecursionError

text \<open>\<^verbatim>\<open>anonymise_string(s)\<close>, which calls \<^verbatim>\<open>anonymise_value\<close>: two frames.\<close>

definition string_in :: "nat \<Rightarrow> string \<Rightarrow> registry \<Rightarrow> error + json \<times> registry" where
  "string_in n s r =
     (if n < 2 then Inl RecursionError
      else Inr (let (t, r') = anonymise_string s r in (JStr t, r')))"



text \<open>The document \<^verbatim>\<open>[[...[null]...]]\<close> with \<open>d\<close> lists around the null.\<close>

fun nest :: "nat \<Rightarrow> json" where
  "nest 0 = JNull"
| "nest (Suc d) = JList [nest d]"

section \<open>Notions the properties are stated with\<close>

subsection \<open>Categories and pseudonyms\<close>

text \<open>
  The category of a string is the branch \<^verbatim>\<open>anonymise_string\<close> takes on it; its pseudonym
  in a registry is the entry of that category's dict.
\<close>

datatype category = Email | Phone | Url | Text

definition classify :: "string \<Rightarrow> category" where
  "classify s =
     (if re_match EMAIL_REGEX s then Email
      else if re_match PHONE_REGEX s then Phone
      else if startswith s ''http'' then Url
      else Text)"

fun cat_prefix :: "category \<Rightarrow> string" where
  "cat_prefix Email = ''email''"
| "cat_prefix Phone = ''phone''"
| "cat_prefix Url = ''url''"
| "cat_prefix Text = ''text''"

fun cat_map :: "category \<Rightarrow> registry \<Rightarrow> pydict" where
  "cat_map Email r = email_map r"
| "cat_map Phone r = phone_map r"
| "cat_map Url r = url_map r"
| "cat_map Text r = text_map r"

definition pseudonym :: "registry \<Rightarrow> string \<Rightarrow> string option" where
  "pseudonym r s = map_of (cat_map (classify s) r) s"

text \<open>
  A dict as \<^verbatim>\<open>anonymise_value\<close> fills it from the empty one with a fixed prefix: the keys are
  distinct and the \<open>i\<close>-th value is the prefix followed by \<open>i\<close>, counted from one.
\<close>

definition dict_ok :: "string \<Rightarrow> pydict \<Rightarrow> bool" where
  "dict_ok prefix m =
     (distinct (map fst m) \<and>
      map snd m = map (\<lambda>i. prefix @ str_nat (i + 1)) [0 ..< length m])"

definition reg_inv :: "registry \<Rightarrow> bool" where
  "reg_inv r =
     (dict_ok ''url'' (url_map r) \<and> dict_ok ''email'' (email_map r) \<and>
      dict_ok ''phone'' (phone_map r) \<and> dict_ok ''text'' (text_map r))"

text \<open>Every pseudonym of \<open>r\<close> is still the pseudonym in \<open>r'\<close>.\<close>

definition reg_le :: "registry \<Rightarrow> registry \<Rightarrow> bool" where
  "reg_le r r' = (\<forall>x u. pseudonym r x = Some u \<longrightarrow> pseudonym r' x = Some u)"

subsection \<open>Shapes\<close>

definition truncation_fields :: "string set" where
  "truncation_fields = {''data_files'', ''data_resources''}"

text \<open>
  Two values of the same shape: the same keys in the same order, lists of the same length
  with elements of the same shape, a string where there is a string, and the same leaf
  elsewhere. Nothing is asked of the values under the two truncation fields.
\<close>

fun same_shape :: "json \<Rightarrow> json \<Rightarrow> bool"
  and same_shapes :: "json list \<Rightarrow> json list \<Rightarrow> bool"
  and same_items :: "(string \<times> json) list \<Rightarrow> (string \<times> json) list \<Rightarrow> bool"
where
  "same_shape (JDict kvs) (JDict kvs') = same_items kvs kvs'"
| "same_shape (JList xs) (JList ys) = same_shapes xs ys"
| "same_shape (JStr s) (JStr t) = True"
| "same_shape JNull JNull = True"
| "same_shape (JBool a) (JBool b) = (a = b)"
| "same_shape (JNum a) (JNum b) = (a = b)"
| "same_shape (JOther a) (JOther b) = (a = b)"
| "same_shape v w = False"
| "same_shapes [] [] = True"
| "same_shapes (x # xs) (y # ys) = (same_shape x y \<and> same_shapes xs ys)"
| "same_shapes xs ys = False"
| "same_items [] [] = True"
| "same_items ((k, v) # kvs) ((k', v') # kvs') =
     (k = k' \<and> (k \<in> truncation_fields \<or> same_shape v v') \<and> same_items kvs kvs')"
| "same_items kvs kvs' = False"

subsection \<open>Paths\<close>

text \<open>
  A path selects a value inside a document through dict keys and list indices;
  \<open>at_path\<close> is \<^verbatim>\<open>v[k]\<close> and \<^verbatim>\<open>v[i]\<close> repeated, \<open>None\<close> where Python raises.
\<close>

datatype step = Key string | Idx nat

fun at_path :: "json \<Rightarrow> step list \<Rightarrow> json option" where
  "at_path v [] = Some v"
| "at_path (JDict kvs) (Key k # p) =
     (case map_of kvs k of None \<Rightarrow> None | Some v \<Rightarrow> at_path v p)"
| "at_path (JList xs) (Idx i # p) = (if i < length xs then at_path (xs ! i) p else None)"
| "at_path v (st # p) = None"

text \<open>A path survives truncation when it enters the list of a truncation field at index 0 only.\<close>

fun kept :: "step list \<Rightarrow> bool" where
  "kept [] = True"
| "kept (Key k # p) =
     ((case p of Idx i # q \<Rightarrow> k \<in> truncation_fields \<longrightarrow> i = 0 | _ \<Rightarrow> True) \<and> kept p)"
| "kept (Idx i # p) = kept p"

text \<open>
  \<open>forced_path f p\<close>: the walk, started with flag \<open>f\<close>, reaches the end of \<open>p\<close> with
  \<^verbatim>\<open>force\<close> set.
\<close>

fun forced_path :: "bool \<Rightarrow> step list \<Rightarrow> bool" where
  "forced_path f [] = f"
| "forced_path f (Key k # p) =
     (if f \<or> lower k \<in> PIPELINE_FIELDS \<or> lower k \<in> ANON_BLOCKS then forced_path True p
      else if lower k \<in> SKIP_KEYS then False
      else forced_path False p)"
| "forced_path f (Idx i # p) = forced_path f p"

section \<open>Lemmas\<close>

subsection \<open>Decimal numerals\<close>

lemma digit_char_inj: "a < 10 \<Longrightarrow> b < 10 \<Longrightarrow> digit_char a = digit_char b \<Longrightarrow> a = b"
proof -
  assume a: "a < 10" and b: "b < 10" and e: "digit_char a = digit_char b"
  have d: "distinct ''0123456789''" by simp
  have "a < length ''0123456789''" "b < length ''0123456789''" using a b by simp_all
  with d e show "a = b" unfolding digit_char_def by (simp only: nth_eq_iff_index_eq)
qed

lemma str_nat_nonempty: "str_nat n \<noteq> []"
  by (subst str_nat.simps) simp

lemma str_nat_inj: "str_nat m = str_nat n \<Longrightarrow> m = n"
proof (induction m arbitrary: n rule: str_nat.induct)
  case (1 m)
  show ?case
  proof (cases "m < 10")
    case True
    then have m: "str_nat m = [digit_char m]" by (subst str_nat.simps) simp
    show ?thesis
    proof (cases "n < 10")
      case True
      then have "str_nat n = [digit_char n]" by (subst str_nat.simps) simp
      with m "1.prems" have "digit_char m = digit_char n" by simp
      with \<open>m < 10\<close> True show ?thesis by (rule digit_char_inj)
    next
      case False
      then have "str_nat n = str_nat (n div 10) @ [digit_char (n mod 10)]"
        by (subst str_nat.simps) simp
      with m "1.prems" have "str_nat (n div 10) = []" by simp
      then show ?thesis by (simp add: str_nat_nonempty)
    qed
  next
    case False
    then have m: "str_nat m = str_nat (m div 10) @ [digit_char (m mod 10)]"
      by (subst str_nat.simps) simp
    show ?thesis
    proof (cases "n < 10")
      case True
      then have "str_nat n = [digit_char n]" by (subst str_nat.simps) simp
      with m "1.prems" have "str_nat (m div 10) = []" by simp
      then show ?thesis by (simp add: str_nat_nonempty)
    next
      case n: False
      then have "str_nat n = str_nat (n div 10) @ [digit_char (n mod 10)]"
        by (subst str_nat.simps) simp
      with m "1.prems" have q: "str_nat (m div 10) = str_nat (n div 10)"
        and d: "digit_char (m mod 10) = digit_char (n mod 10)" by simp_all
      from "1.IH" [OF False q] have "m div 10 = n div 10" .
      moreover have "m mod 10 = n mod 10"
        by (rule digit_char_inj [OF _ _ d]) simp_all
      ultimately show ?thesis by (metis div_mult_mod_eq)
    qed
  qed
qed

subsection \<open>The registry\<close>

lemma reg_inv_cat: "reg_inv r \<Longrightarrow> dict_ok (cat_prefix c) (cat_map c r)"
  by (cases c) (simp_all add: reg_inv_def)

lemma reg_inv_empty: "reg_inv empty_registry"
  by (simp add: reg_inv_def empty_registry_def dict_ok_def)

lemma anonymise_value_lookup:
  "anonymise_value s m p = (t, m') \<Longrightarrow> map_of m' s = Some t"
  by (auto simp: anonymise_value_def Let_def map_add_def split: option.splits)

lemma anonymise_value_mono:
  "map_of m x = Some u \<Longrightarrow> map_of (snd (anonymise_value s m p)) x = Some u"
  by (auto simp: anonymise_value_def Let_def map_add_Some_iff split: option.splits)

lemma anonymise_value_known:
  "map_of m s = Some t \<Longrightarrow> anonymise_value s m p = (t, m)"
  by (simp add: anonymise_value_def)

lemma anonymise_value_new:
  "map_of m s = None \<Longrightarrow>
   anonymise_value s m p = (p @ str_nat (length m + 1), m @ [(s, p @ str_nat (length m + 1))])"
  by (simp add: anonymise_value_def Let_def)

lemma anonymise_value_ok:
  "dict_ok p m \<Longrightarrow> dict_ok p (snd (anonymise_value s m p))"
  by (auto simp: anonymise_value_def Let_def dict_ok_def map_of_eq_None_iff split: option.splits)

lemma anonymise_string_classify:
  "anonymise_string s r =
     (let (t, m) = anonymise_value s (cat_map (classify s) r) (cat_prefix (classify s))
      in (t, case classify s of
               Email \<Rightarrow> r\<lparr>email_map := m\<rparr> | Phone \<Rightarrow> r\<lparr>phone_map := m\<rparr>
             | Url \<Rightarrow> r\<lparr>url_map := m\<rparr> | Text \<Rightarrow> r\<lparr>text_map := m\<rparr>))"
  by (simp add: anonymise_string_def classify_def)

lemma cat_map_after:
  "cat_map c (snd (anonymise_string s r)) =
     (if c = classify s then snd (anonymise_value s (cat_map c r) (cat_prefix c)) else cat_map c r)"
  by (cases c; cases "classify s") (simp_all add: anonymise_string_classify split: prod.splits)

lemma anonymise_string_pseudonym:
  "anonymise_string s r = (t, r') \<Longrightarrow> pseudonym r' s = Some t"
proof -
  assume a: "anonymise_string s r = (t, r')"
  obtain u m where v: "anonymise_value s (cat_map (classify s) r) (cat_prefix (classify s)) = (u, m)"
    by (cases "anonymise_value s (cat_map (classify s) r) (cat_prefix (classify s))")
  from a v have "u = t" by (simp add: anonymise_string_classify)
  moreover from a have "r' = snd (anonymise_string s r)" by simp
  then have "cat_map (classify s) r' = m" using v by (simp add: cat_map_after)
  moreover from v have "map_of m s = Some u" by (rule anonymise_value_lookup)
  ultimately show ?thesis by (simp add: pseudonym_def)
qed

lemma anonymise_string_mono:
  "pseudonym r x = Some u \<Longrightarrow> pseudonym (snd (anonymise_string s r)) x = Some u"
  by (auto simp: pseudonym_def cat_map_after anonymise_value_mono)

lemma anonymise_string_known:
  "pseudonym r s = Some t \<Longrightarrow> anonymise_string s r = (t, r)"
  by (cases "classify s")
     (simp_all add: pseudonym_def anonymise_string_classify anonymise_value_known)

lemma anonymise_string_inv: "reg_inv r \<Longrightarrow> reg_inv (snd (anonymise_string s r))"
proof -
  assume i: "reg_inv r"
  have "dict_ok (cat_prefix c) (cat_map c (snd (anonymise_string s r)))" for c
    using reg_inv_cat [OF i, of c] by (auto simp: cat_map_after anonymise_value_ok)
  from this [of Url] this [of Email] this [of Phone] this [of Text]
  show ?thesis by (simp add: reg_inv_def)
qed

lemma anonymise_string_new:
  assumes "pseudonym r s = None"
  shows "fst (anonymise_string s r) =
           cat_prefix (classify s) @ str_nat (length (cat_map (classify s) r) + 1)"
  using assms
  by (simp add: pseudonym_def anonymise_string_classify anonymise_value_new)

lemma dict_ok_index:
  assumes "dict_ok p m" and "map_of m a = Some t"
  shows "\<exists>i<length m. m ! i = (a, t) \<and> t = p @ str_nat (i + 1)"
proof -
  from assms(2) have "(a, t) \<in> set m" by (rule map_of_SomeD)
  then obtain i where i: "i < length m" "m ! i = (a, t)" by (auto simp: in_set_conv_nth)
  from assms(1) have "map snd m ! i = map (\<lambda>i. p @ str_nat (i + 1)) [0 ..< length m] ! i"
    by (simp add: dict_ok_def)
  with i have "t = p @ str_nat (i + 1)" by simp
  with i show ?thesis by blast
qed

lemma dict_ok_inj:
  assumes "dict_ok p m" and "map_of m a = Some t" and "map_of m b = Some t"
  shows "a = b"
proof -
  from dict_ok_index [OF assms(1,2)] obtain i
    where i: "i < length m" "m ! i = (a, t)" "t = p @ str_nat (i + 1)" by blast
  from dict_ok_index [OF assms(1,3)] obtain j
    where j: "j < length m" "m ! j = (b, t)" "t = p @ str_nat (j + 1)" by blast
  from i(3) j(3) have "str_nat (i + 1) = str_nat (j + 1)" by simp
  then have "i = j" by (auto dest: str_nat_inj)
  with i(2) j(2) show ?thesis by simp
qed

lemma cat_prefix_inj: "cat_prefix c @ x = cat_prefix c' @ y \<Longrightarrow> c = c'"
  by (cases c; cases c') simp_all

lemma pseudonym_token:
  assumes "reg_inv r" and "pseudonym r a = Some t"
  shows "\<exists>i<length (cat_map (classify a) r). t = cat_prefix (classify a) @ str_nat (i + 1)"
  using dict_ok_index [OF reg_inv_cat [OF assms(1)] assms(2) [unfolded pseudonym_def]]
  by blast

lemma pseudonym_inj:
  assumes "reg_inv r" and "pseudonym r a = Some t" and "pseudonym r b = Some t"
  shows "a = b"
proof -
  from pseudonym_token [OF assms(1,2)] obtain i
    where "t = cat_prefix (classify a) @ str_nat (i + 1)" by blast
  moreover from pseudonym_token [OF assms(1,3)] obtain j
    where "t = cat_prefix (classify b) @ str_nat (j + 1)" by blast
  ultimately have "classify a = classify b" by (auto dest: cat_prefix_inj)
  with assms(2,3) have "map_of (cat_map (classify a) r) a = Some t"
    "map_of (cat_map (classify a) r) b = Some t" by (simp_all add: pseudonym_def)
  with reg_inv_cat [OF assms(1)] show ?thesis by (rule dict_ok_inj)
qed

lemma reg_le_refl: "reg_le r r"
  by (simp add: reg_le_def)

lemma reg_le_trans: "reg_le r1 r2 \<Longrightarrow> reg_le r2 r3 \<Longrightarrow> reg_le r1 r3"
  by (simp add: reg_le_def)

subsection \<open>The walk, one equation per case\<close>

lemma anonymise_JDict:
  "anonymise (JDict kvs) pk f r =
     (JDict (fst (anonymise_items kvs f r)), snd (anonymise_items kvs f r))"
  by (simp add: case_prod_beta)

lemma anonymise_JList:
  "anonymise (JList xs) pk f r =
     (JList (fst (anonymise_elems xs pk f r)), snd (anonymise_elems xs pk f r))"
  by (simp add: case_prod_beta)

lemma anonymise_JStr:
  "anonymise (JStr s) pk f r =
     (if f then (JStr (fst (anonymise_string s r)), snd (anonymise_string s r)) else (JStr s, r))"
  by (simp add: case_prod_beta)

lemma anonymise_elems_Cons:
  "anonymise_elems (x # xs) pk f r =
     (fst (anonymise x pk f r) # fst (anonymise_elems xs pk f (snd (anonymise x pk f r))),
      snd (anonymise_elems xs pk f (snd (anonymise x pk f r))))"
  by (simp add: case_prod_beta)

lemma anonymise_items_Cons:
  "anonymise_items ((k, v0) # kvs) f r =
     ((k, fst (anonymise_item k v0 f r)) # fst (anonymise_items kvs f (snd (anonymise_item k v0 f r))),
      snd (anonymise_items kvs f (snd (anonymise_item k v0 f r))))"
  by (cases "limit_field k v0")
     (simp_all add: anonymise_item_def case_prod_beta Let_def)

declare anonymise.simps(1,2,3) [simp del]
declare anonymise_elems.simps(2) [simp del]
declare anonymise_items.simps(2) [simp del]
declare anonymise_JDict [simp]
declare anonymise_JList [simp]
declare anonymise_JStr [simp]
declare anonymise_elems_Cons [simp]
declare anonymise_items_Cons [simp]

text \<open>Induction along the calls of the walk: a dict recurses into its truncated values.\<close>

lemma json_walk_induct [case_names JStr JNull JBool JNum JOther JList JDict]:
  assumes "\<And>s. P (JStr s)" and "P JNull" and "\<And>b. P (JBool b)" and "\<And>n. P (JNum n)"
    and "\<And>x. P (JOther x)"
    and "\<And>xs. (\<And>x. x \<in> set xs \<Longrightarrow> P x) \<Longrightarrow> P (JList xs)"
    and "\<And>kvs. (\<And>k v. (k, v) \<in> set kvs \<Longrightarrow> P (limit_field k v)) \<Longrightarrow> P (JDict kvs)"
  shows "P v"
proof (induction v rule: measure_induct_rule [where f = size])
  case (less v)
  show ?case
  proof (cases v)
    case (JList xs)
    have "P x" if "x \<in> set xs" for x
    proof (rule less.IH)
      from that have "size x \<le> size_list size xs" by (simp add: size_list_estimation')
      with JList show "size x < size v" by simp
    qed
    with JList show ?thesis by (simp add: assms(6))
  next
    case (JDict kvs)
    have "P (limit_field k w)" if "(k, w) \<in> set kvs" for k w
    proof (rule less.IH)
      have "size_prod (\<lambda>_. 0) size (k, w) \<le> size_list (size_prod (\<lambda>_. 0) size) kvs"
        using that by (simp only: size_list_estimation')
      then have "size w < size (JDict kvs)" by simp
      with size_limit_field [of k w] JDict show "size (limit_field k w) < size v" by simp
    qed
    with JDict show ?thesis by (simp add: assms(7))
  qed (simp_all add: assms)
qed

subsection \<open>What the walk keeps of the registry\<close>

lemma anonymise_elems_preserves:
  assumes "\<And>x r. x \<in> set xs \<Longrightarrow> P r \<Longrightarrow> P (snd (anonymise x pk f r))"
  shows "P r \<Longrightarrow> P (snd (anonymise_elems xs pk f r))"
  using assms by (induction xs arbitrary: r) simp_all

lemma anonymise_items_preserves:
  assumes "\<And>k v r. (k, v) \<in> set kvs \<Longrightarrow> P r \<Longrightarrow> P (snd (anonymise_item k v f r))"
  shows "P r \<Longrightarrow> P (snd (anonymise_items kvs f r))"
  using assms
proof (induction kvs arbitrary: r)
  case Nil
  then show ?case by simp
next
  case (Cons kv kvs)
  obtain k v where kv: "kv = (k, v)" by (cases kv)
  have "P (snd (anonymise_item k v f r))" using Cons.prems kv by simp
  then have "P (snd (anonymise_items kvs f (snd (anonymise_item k v f r))))"
    using Cons.prems(2) by (intro Cons.IH) simp_all
  with kv show ?case by simp
qed

lemma anonymise_preserves:
  assumes step: "\<And>s r. P r \<Longrightarrow> P (snd (anonymise_string s r))"
  shows "P r \<Longrightarrow> P (snd (anonymise v pk f r))"
proof (induction v arbitrary: pk f r rule: json_walk_induct)
  case (JStr s)
  then show ?case by (simp add: step)
next
  case (JList xs)
  then show ?case by (simp add: anonymise_elems_preserves)
next
  case (JDict kvs)
  have "P (snd (anonymise_item k v f r'))" if "(k, v) \<in> set kvs" "P r'" for k v r'
    using that JDict.IH [of k v] by (simp add: anonymise_item_def Let_def)
  with JDict.prems show ?case by (simp add: anonymise_items_preserves)
qed simp_all

lemma anonymise_mono:
  "pseudonym r x = Some u \<Longrightarrow> pseudonym (snd (anonymise v pk f r)) x = Some u"
  by (rule anonymise_preserves [where P = "\<lambda>r. pseudonym r x = Some u"])
     (simp_all add: anonymise_string_mono)

lemma anonymise_inv: "reg_inv r \<Longrightarrow> reg_inv (snd (anonymise v pk f r))"
  by (rule anonymise_preserves [where P = reg_inv]) (simp_all add: anonymise_string_inv)

lemma reg_le_anonymise: "reg_le r (snd (anonymise v pk f r))"
  by (simp add: reg_le_def anonymise_mono)

lemma reg_le_item: "reg_le r (snd (anonymise_item k v f r))"
  by (simp add: anonymise_item_def Let_def reg_le_anonymise reg_le_refl)

lemma reg_le_elems: "reg_le r (snd (anonymise_elems xs pk f r))"
proof (induction xs arbitrary: r)
  case (Cons x xs)
  show ?case using reg_le_trans [OF reg_le_anonymise Cons] by simp
qed (simp add: reg_le_refl)

lemma reg_le_items: "reg_le r (snd (anonymise_items kvs f r))"
proof (induction kvs arbitrary: r)
  case (Cons kv kvs)
  obtain k v where "kv = (k, v)" by (cases kv)
  then show ?case using reg_le_trans [OF reg_le_item Cons] by simp
qed (simp add: reg_le_refl)

lemma anonymise_elems_parent_key:
  assumes "\<And>x r. x \<in> set xs \<Longrightarrow> anonymise x pk f r = anonymise x pk' f r"
  shows "anonymise_elems xs pk f r = anonymise_elems xs pk' f r"
  using assms by (induction xs arbitrary: r) simp_all

lemma anonymise_parent_key: "anonymise v pk f r = anonymise v pk' f r"
proof (induction v arbitrary: pk pk' f r rule: json_walk_induct)
  case (JList xs)
  have "anonymise_elems xs pk f r = anonymise_elems xs pk' f r"
    by (rule anonymise_elems_parent_key) (rule JList.IH)
  then show ?case by simp
qed simp_all

subsection \<open>Shapes\<close>

lemma limit_field_other: "k \<notin> truncation_fields \<Longrightarrow> limit_field k v = v"
  by (simp add: limit_field_def truncation_fields_def)

lemma truncation_fields_forced: "k \<in> truncation_fields \<Longrightarrow> lower k \<in> ANON_BLOCKS"
proof -
  have "lower ''data_files'' = ''data_files''" "lower ''data_resources'' = ''data_resources''"
    by code_simp+
  then show "k \<in> truncation_fields \<Longrightarrow> lower k \<in> ANON_BLOCKS"
    by (auto simp: truncation_fields_def ANON_BLOCKS_def)
qed

lemma same_shapes_refl: "(\<And>x. x \<in> set xs \<Longrightarrow> same_shape x x) \<Longrightarrow> same_shapes xs xs"
  by (induction xs) simp_all

lemma same_items_refl:
  "\<forall>(k, v) \<in> set kvs. same_shape v v \<Longrightarrow> same_items kvs kvs"
  by (induction kvs) auto

lemma same_shape_refl: "same_shape v v"
proof (induction v)
  case (JList xs)
  then show ?case by (simp add: same_shapes_refl)
next
  case (JDict kvs)
  have "same_shape v v" if "(k, v) \<in> set kvs" for k v
    using that JDict by (force simp: snds.simps)
  then have "\<forall>(k, v) \<in> set kvs. same_shape v v" by blast
  then show ?case by (simp add: same_items_refl)
qed simp_all

lemma same_shapes_elems:
  "(\<And>x r. x \<in> set xs \<Longrightarrow> same_shape x (fst (anonymise x pk f r))) \<Longrightarrow>
   same_shapes xs (fst (anonymise_elems xs pk f r))"
  by (induction xs arbitrary: r) simp_all

lemma same_items_items:
  "\<forall>(k, v) \<in> set kvs. \<forall>r.
      k \<in> truncation_fields \<or> same_shape v (fst (anonymise_item k v f r)) \<Longrightarrow>
   same_items kvs (fst (anonymise_items kvs f r))"
  by (induction kvs arbitrary: r) auto

lemma same_shape_anonymise: "same_shape v (fst (anonymise v pk f r))"
proof (induction v arbitrary: pk f r rule: json_walk_induct)
  case (JList xs)
  then show ?case by (simp add: same_shapes_elems)
next
  case (JDict kvs)
  have "k \<in> truncation_fields \<or> same_shape v (fst (anonymise_item k v f r'))"
    if "(k, v) \<in> set kvs" for k v r'
  proof (cases "k \<in> truncation_fields")
    case False
    then have "limit_field k v = v" by (rule limit_field_other)
    with JDict.IH [OF that] show ?thesis
      by (simp add: anonymise_item_def same_shape_refl)
  qed simp
  then have "\<forall>(k, v) \<in> set kvs. \<forall>r.
      k \<in> truncation_fields \<or> same_shape v (fst (anonymise_item k v f r))" by blast
  then show ?case by (simp add: same_items_items)
qed simp_all

subsection \<open>Paths through the output\<close>

lemma length_anonymise_elems: "length (fst (anonymise_elems xs pk f r)) = length xs"
  by (induction xs arbitrary: r) simp_all

lemma elems_nth:
  "i < length xs \<Longrightarrow>
   \<exists>r1. fst (anonymise_elems xs pk f r) ! i = fst (anonymise (xs ! i) pk f r1) \<and>
        reg_le (snd (anonymise (xs ! i) pk f r1)) (snd (anonymise_elems xs pk f r))"
proof (induction xs arbitrary: i r)
  case Nil
  then show ?case by simp
next
  case (Cons x xs)
  show ?case
  proof (cases i)
    case 0
    then show ?thesis by (auto intro: reg_le_elems)
  next
    case (Suc j)
    with Cons.prems have "j < length xs" by simp
    from Cons.IH [OF this, of "snd (anonymise x pk f r)"] Suc show ?thesis by simp
  qed
qed

lemma items_lookup:
  "map_of kvs k = Some v \<Longrightarrow>
   \<exists>r1. map_of (fst (anonymise_items kvs f r)) k = Some (fst (anonymise_item k v f r1)) \<and>
        reg_le (snd (anonymise_item k v f r1)) (snd (anonymise_items kvs f r))"
proof (induction kvs arbitrary: r)
  case Nil
  then show ?case by simp
next
  case (Cons kv kvs)
  obtain k' v' where kv: "kv = (k', v')" by (cases kv)
  show ?case
  proof (cases "k' = k")
    case True
    with Cons.prems kv have "v' = v" by simp
    with True kv show ?thesis by (auto intro: reg_le_items)
  next
    case False
    with Cons.prems kv have "map_of kvs k = Some v" by simp
    from Cons.IH [OF this, of "snd (anonymise_item k' v' f r)"] False kv show ?thesis by simp
  qed
qed

lemma at_path_limit_field:
  assumes "kept (Key k # p)" and "at_path v p = Some (JStr s)"
  shows "at_path (limit_field k v) p = Some (JStr s)"
proof (cases "k \<in> truncation_fields \<and> is_list v")
  case False
  then show ?thesis using assms(2)
    by (auto simp: limit_field_def truncation_fields_def)
next
  case True
  then obtain xs where v: "v = JList xs" by (cases v) simp_all
  with assms(2) obtain i q where p: "p = Idx i # q"
    by (cases p rule: kept.cases) simp_all
  with assms(1) True have "i = 0" by simp
  with assms(2) v p have "xs \<noteq> []" "at_path (JList (take 1 xs)) p = Some (JStr s)"
    by (auto split: if_splits)
  with True v show ?thesis by (auto simp: limit_field_def truncation_fields_def)
qed

lemma forced_leaf:
  "at_path v p = Some (JStr s) \<Longrightarrow> forced_path f p \<Longrightarrow> kept p \<Longrightarrow>
   \<exists>t. at_path (fst (anonymise v pk f r)) p = Some (JStr t) \<and>
       pseudonym (snd (anonymise v pk f r)) s = Some t"
proof (induction p arbitrary: v f pk r)
  case Nil
  then show ?case by (auto intro: anonymise_string_pseudonym simp: prod_eq_iff)
next
  case (Cons st p)
  show ?case
  proof (cases st)
    case (Key k)
    with Cons.prems(1) obtain kvs v1 where v: "v = JDict kvs" and m: "map_of kvs k = Some v1"
      and a: "at_path v1 p = Some (JStr s)"
      by (cases v) (auto split: option.splits)
    from Cons.prems(3) Key a have a': "at_path (limit_field k v1) p = Some (JStr s)"
      by (intro at_path_limit_field) simp_all
    from Cons.prems(3) Key have kp: "kept p" by simp
    from items_lookup [OF m, of f r] obtain r1
      where o: "map_of (fst (anonymise_items kvs f r)) k = Some (fst (anonymise_item k v1 f r1))"
        and le: "reg_le (snd (anonymise_item k v1 f r1)) (snd (anonymise_items kvs f r))"
      by blast
    have "\<exists>t. at_path (fst (anonymise_item k v1 f r1)) p = Some (JStr t) \<and>
            pseudonym (snd (anonymise_item k v1 f r1)) s = Some t"
    proof (cases "f \<or> lower k \<in> PIPELINE_FIELDS \<or> lower k \<in> ANON_BLOCKS")
      case True
      with Cons.prems(2) Key have "forced_path True p" by simp
      from Cons.IH [OF a' this kp, of "Some k" r1] True show ?thesis
        by (simp add: anonymise_item_def)
    next
      case False
      with Cons.prems(2) Key have "lower k \<notin> SKIP_KEYS" "forced_path False p"
        by (simp_all split: if_splits)
      from Cons.IH [OF a' this(2) kp, of "Some k" r1] False this(1) show ?thesis
        by (simp add: anonymise_item_def)
    qed
    then obtain t where "at_path (fst (anonymise_item k v1 f r1)) p = Some (JStr t)"
      "pseudonym (snd (anonymise_item k v1 f r1)) s = Some t" by blast
    with le o v Key show ?thesis by (auto simp: reg_le_def)
  next
    case (Idx i)
    with Cons.prems(1) obtain xs where v: "v = JList xs" and i: "i < length xs"
      and a: "at_path (xs ! i) p = Some (JStr s)"
      by (cases v) (auto split: if_splits)
    from Cons.prems(2,3) Idx have fp: "forced_path f p" "kept p" by simp_all
    from elems_nth [OF i, of pk f r] obtain r1
      where o: "fst (anonymise_elems xs pk f r) ! i = fst (anonymise (xs ! i) pk f r1)"
        and le: "reg_le (snd (anonymise (xs ! i) pk f r1)) (snd (anonymise_elems xs pk f r))"
      by blast
    from Cons.IH [OF a fp, of pk r1] obtain t
      where "at_path (fst (anonymise (xs ! i) pk f r1)) p = Some (JStr t)"
        "pseudonym (snd (anonymise (xs ! i) pk f r1)) s = Some t" by blast
    with le o v Idx i show ?thesis by (auto simp: reg_le_def length_anonymise_elems)
  qed
qed

lemma unforced_leaf:
  "at_path v p = Some (JStr s) \<Longrightarrow>
   \<forall>k. Key k \<in> set p \<longrightarrow> lower k \<notin> ANON_BLOCKS \<and> lower k \<notin> PIPELINE_FIELDS \<Longrightarrow>
   at_path (fst (anonymise v pk False r)) p = Some (JStr s)"
proof (induction p arbitrary: v pk r)
  case Nil
  then show ?case by simp
next
  case (Cons st p)
  show ?case
  proof (cases st)
    case (Key k)
    with Cons.prems(1) obtain kvs v1 where v: "v = JDict kvs" and m: "map_of kvs k = Some v1"
      and a: "at_path v1 p = Some (JStr s)"
      by (cases v) (auto split: option.splits)
    from Cons.prems(2) Key have nf: "lower k \<notin> ANON_BLOCKS" "lower k \<notin> PIPELINE_FIELDS"
      by simp_all
    then have "k \<notin> truncation_fields" using truncation_fields_forced by blast
    then have l: "limit_field k v1 = v1" by (rule limit_field_other)
    from items_lookup [OF m, of False r] obtain r1
      where o: "map_of (fst (anonymise_items kvs False r)) k =
                  Some (fst (anonymise_item k v1 False r1))"
      by blast
    from Cons.prems(2) have "\<forall>k. Key k \<in> set p \<longrightarrow> lower k \<notin> ANON_BLOCKS \<and> lower k \<notin> PIPELINE_FIELDS"
      by simp
    from Cons.IH [OF a this, of "Some k" r1] a nf l
    have "at_path (fst (anonymise_item k v1 False r1)) p = Some (JStr s)"
      by (simp add: anonymise_item_def)
    with o v Key show ?thesis by simp
  next
    case (Idx i)
    with Cons.prems(1) obtain xs where v: "v = JList xs" and i: "i < length xs"
      and a: "at_path (xs ! i) p = Some (JStr s)"
      by (cases v) (auto split: if_splits)
    from elems_nth [OF i, of pk False r] obtain r1
      where o: "fst (anonymise_elems xs pk False r) ! i = fst (anonymise (xs ! i) pk False r1)"
      by blast
    from Cons.prems(2) have "\<forall>k. Key k \<in> set p \<longrightarrow> lower k \<notin> ANON_BLOCKS \<and> lower k \<notin> PIPELINE_FIELDS"
      by simp
    from Cons.IH [OF a this, of pk r1] o v Idx i show ?thesis
      by (simp add: length_anonymise_elems)
  qed
qed

lemma forced_path_True:
  "\<forall>k. Key k \<in> set p \<longrightarrow> lower k \<notin> SKIP_KEYS \<Longrightarrow> forced_path True p"
proof (induction p)
  case (Cons st p)
  then show ?case by (cases st) simp_all
qed simp

lemma forced_path_block:
  "Key k \<in> set p \<Longrightarrow> lower k \<in> ANON_BLOCKS \<Longrightarrow>
   \<forall>k. Key k \<in> set p \<longrightarrow> lower k \<notin> SKIP_KEYS \<Longrightarrow> forced_path f p"
proof (induction p arbitrary: f)
  case Nil
  then show ?case by simp
next
  case (Cons st p)
  show ?case
  proof (cases st)
    case (Key k')
    from Cons.prems(3) have ns: "\<forall>k. Key k \<in> set p \<longrightarrow> lower k \<notin> SKIP_KEYS" by simp
    show ?thesis
    proof (cases "f \<or> lower k' \<in> PIPELINE_FIELDS \<or> lower k' \<in> ANON_BLOCKS")
      case True
      with Key forced_path_True [OF ns] show ?thesis by simp
    next
      case False
      with Cons.prems(1,2) Key have "Key k \<in> set p" by auto
      from Cons.IH [OF this Cons.prems(2) ns, of False] False Cons.prems(3) Key
      show ?thesis by simp
    qed
  next
    case (Idx i)
    with Cons.prems have "Key k \<in> set p" "\<forall>k. Key k \<in> set p \<longrightarrow> lower k \<notin> SKIP_KEYS"
      by simp_all
    from Cons.IH [OF this(1) Cons.prems(2) this(2), of f] Idx show ?thesis by simp
  qed
qed

lemma items_lookup_exact:
  "map_of kvs k = Some v \<Longrightarrow>
   map_of (fst (anonymise_items kvs f r)) k =
     Some (fst (anonymise_item k v f
       (snd (anonymise_items (takeWhile (\<lambda>kv. fst kv \<noteq> k) kvs) f r))))"
proof (induction kvs arbitrary: r)
  case Nil
  then show ?case by simp
next
  case (Cons kv kvs)
  obtain k' v' where kv: "kv = (k', v')" by (cases kv)
  show ?case
  proof (cases "k' = k")
    case True
    with Cons.prems kv show ?thesis by simp
  next
    case False
    with Cons.prems kv have "map_of kvs k = Some v" by simp
    from Cons.IH [OF this, of "snd (anonymise_item k' v' f r)"] False kv show ?thesis by simp
  qed
qed

subsection \<open>The recursion limit\<close>



lemma string_in_enough:
  "2 \<le> n \<Longrightarrow> string_in n s r = Inr (anonymise (JStr s) pk True r)"
  by (simp add: string_in_def case_prod_beta)





lemma anonymise_nest: "anonymise (nest d) pk f r = (nest d, r)"
  by (induction d) simp_all


section \<open>The claims\<close>

subsection \<open>C1: skip keys inside a forced block\<close>

text \<open>
  Claim C1: the value under a key of \<open>SKIP_KEYS\<close> is returned unchanged also where the
  enclosing call is forced. The loop tests \<^verbatim>\<open>force\<close> before it tests \<open>SKIP_KEYS\<close>, so
  inside the block \<^verbatim>\<open>contacts\<close> the string under \<^verbatim>\<open>id\<close> is replaced by a pseudonym:
  the code evaluated at \<^verbatim>\<open>{"contacts": {"id": "abc-1"}}\<close>.
\<close>

theorem skip_key_in_forced_block_is_pseudonymised:
  "anonymise (JDict [(''contacts'', JDict [(''id'', JStr ''abc-1'')])]) None False empty_registry
     = (JDict [(''contacts'', JDict [(''id'', JStr ''text1'')])],
        \<lparr>url_map = [], email_map = [], phone_map = [], text_map = [(''abc-1'', ''text1'')]\<rparr>)"
  by code_simp

subsection \<open>C2: truncation of the two list fields\<close>

text \<open>
  Claim C2, as stated, fails: the two tests compare the key itself, not its lower-case
  form, so the list under \<^verbatim>\<open>Data_Files\<close> keeps both elements; and the element that is
  kept under \<^verbatim>\<open>data_files\<close> is not the input's first element but its forced image.
\<close>

theorem truncation_compares_exact_key:
  "lower ''Data_Files'' = ''data_files'' \<and>
   anonymise (JDict [(''Data_Files'', JList [JNum 1, JNum 2])]) None False empty_registry
     = (JDict [(''Data_Files'', JList [JNum 1, JNum 2])], empty_registry) \<and>
   anonymise (JDict [(''data_files'', JList [JStr ''a.csv'', JStr ''b.csv''])]) None False
       empty_registry
     = (JDict [(''data_files'', JList [JStr ''text1''])],
        \<lparr>url_map = [], email_map = [], phone_map = [], text_map = [(''a.csv'', ''text1'')]\<rparr>)"
  by code_simp

text \<open>
  Claim C2, amended: for a key that is exactly \<^verbatim>\<open>data_files\<close> or \<^verbatim>\<open>data_resources\<close> and
  whose value is a list, whatever the forced flag, the output under that key is the empty
  list when the input list is empty, and otherwise the one-element list of the value that
  \<open>anonymise\<close> returns for the first input element with \<^verbatim>\<open>force=True\<close>, in the state of the
  dicts that the items before the key have left. A string of the first element that lies
  on a path without skip keys and survives truncation appears in the output as its
  pseudonym of the final registry.
\<close>

theorem truncation_policy:
  assumes "k = ''data_files'' \<or> k = ''data_resources''"
    and "map_of kvs k = Some (JList xs)"
  shows "at_path (fst (anonymise (JDict kvs) pk f r)) [Key k] =
           Some (JList (case xs of
                          [] \<Rightarrow> []
                        | x # rest \<Rightarrow>
                            [fst (anonymise x (Some k) True
                               (snd (anonymise_items (takeWhile (\<lambda>kv. fst kv \<noteq> k) kvs) f r)))])) \<and>
         (\<forall>p s. at_path (JList xs) (Idx 0 # p) = Some (JStr s) \<and> kept p \<and>
                (\<forall>k'. Key k' \<in> set p \<longrightarrow> lower k' \<notin> SKIP_KEYS) \<longrightarrow>
            (\<exists>t. at_path (fst (anonymise (JDict kvs) pk f r)) (Key k # Idx 0 # p) = Some (JStr t) \<and>
                 pseudonym (snd (anonymise (JDict kvs) pk f r)) s = Some t))"
proof (intro conjI allI impI)
  from assms(1) have tf: "k \<in> truncation_fields" by (auto simp: truncation_fields_def)
  then have fb: "lower k \<in> ANON_BLOCKS" by (rule truncation_fields_forced)
  from assms(1) have l: "limit_field k (JList xs) = JList (take 1 xs)"
    by (auto simp: limit_field_def)
  from items_lookup_exact [OF assms(2), of f r] fb l
  have "at_path (fst (anonymise (JDict kvs) pk f r)) [Key k] =
      Some (JList (fst (anonymise_elems (take 1 xs) (Some k) True
        (snd (anonymise_items (takeWhile (\<lambda>kv. fst kv \<noteq> k) kvs) f r)))))"
    by (simp add: anonymise_item_def)
  then show "at_path (fst (anonymise (JDict kvs) pk f r)) [Key k] =
           Some (JList (case xs of
                          [] \<Rightarrow> []
                        | x # rest \<Rightarrow>
                            [fst (anonymise x (Some k) True
                               (snd (anonymise_items (takeWhile (\<lambda>kv. fst kv \<noteq> k) kvs) f r)))]))"
    by (cases xs) simp_all
next
  fix p s
  assume h: "at_path (JList xs) (Idx 0 # p) = Some (JStr s) \<and> kept p \<and>
                (\<forall>k'. Key k' \<in> set p \<longrightarrow> lower k' \<notin> SKIP_KEYS)"
  from assms(1) have tf: "k \<in> truncation_fields" by (auto simp: truncation_fields_def)
  then have fb: "lower k \<in> ANON_BLOCKS" by (rule truncation_fields_forced)
  from h assms(2) have a: "at_path (JDict kvs) (Key k # Idx 0 # p) = Some (JStr s)" by simp
  from h have "forced_path True p" by (intro forced_path_True) simp
  with fb have fp: "forced_path f (Key k # Idx 0 # p)" by simp
  from h have kp: "kept (Key k # Idx 0 # p)" by simp
  from forced_leaf [OF a fp kp, of pk r]
  show "\<exists>t. at_path (fst (anonymise (JDict kvs) pk f r)) (Key k # Idx 0 # p) = Some (JStr t) \<and>
                 pseudonym (snd (anonymise (JDict kvs) pk f r)) s = Some t" .
qed

text \<open>
  The amended claim at a document whose \<^verbatim>\<open>data_files\<close> list has two elements: the output
  list is the pseudonym of the first one.
\<close>

theorem truncation_policy_witness:
  "map_of [(''title'', JStr ''t''), (''data_files'', JList [JStr ''a.csv'', JStr ''b.csv''])]
      ''data_files'' = Some (JList [JStr ''a.csv'', JStr ''b.csv'']) \<and>
   at_path (fst (anonymise
              (JDict [(''title'', JStr ''t''),
                      (''data_files'', JList [JStr ''a.csv'', JStr ''b.csv''])])
              None False empty_registry)) [Key ''data_files''] = Some (JList [JStr ''text1''])"
proof -
  have m: "map_of [(''title'', JStr ''t''), (''data_files'', JList [JStr ''a.csv'', JStr ''b.csv''])]
      ''data_files'' = Some (JList [JStr ''a.csv'', JStr ''b.csv''])" by simp
  have e: "fst (anonymise (JStr ''a.csv'') (Some ''data_files'') True
             (snd (anonymise_items
                (takeWhile (\<lambda>kv. fst kv \<noteq> ''data_files'')
                   [(''title'', JStr ''t''),
                    (''data_files'', JList [JStr ''a.csv'', JStr ''b.csv''])])
                False empty_registry))) = JStr ''text1''"
    by code_simp
  from truncation_policy [OF _ m, of None False empty_registry] m e show ?thesis by simp
qed

subsection \<open>C3: force propagation\<close>

text \<open>
  Claim C3, as stated, fails: below a skip key the walk copies the value, so a string
  under the block key \<^verbatim>\<open>contacts\<close> that sits inside the value of \<^verbatim>\<open>id\<close> is returned as it
  is and gets no pseudonym.
\<close>

theorem string_under_skip_key_is_kept:
  "at_path (JDict [(''id'', JDict [(''contacts'', JStr ''Jane'')])]) [Key ''id'', Key ''contacts'']
     = Some (JStr ''Jane'') \<and>
   lower ''contacts'' \<in> ANON_BLOCKS \<and>
   anonymise (JDict [(''id'', JDict [(''contacts'', JStr ''Jane'')])]) None False empty_registry
     = (JDict [(''id'', JDict [(''contacts'', JStr ''Jane'')])], empty_registry) \<and>
   pseudonym empty_registry ''Jane'' = None"
  by code_simp

text \<open>
  Claim C3, amended: let a string leaf lie at path \<open>p\<close> of the input. If \<open>p\<close> passes a
  key of the force-block set, passes no skip key, and survives truncation, then whatever
  the flag at the root the output has at \<open>p\<close> the string's pseudonym, which in a
  registry grown from the empty one is the category prefix followed by a counter from one.
  If \<open>p\<close> passes no force-block key and no force-field key, a call with
  \<^verbatim>\<open>force=False\<close> at the root returns the string at \<open>p\<close> unchanged.
\<close>

theorem force_propagation:
  assumes "at_path v p = Some (JStr s)"
  shows "((\<exists>k. Key k \<in> set p \<and> lower k \<in> ANON_BLOCKS) \<and>
          (\<forall>k. Key k \<in> set p \<longrightarrow> lower k \<notin> SKIP_KEYS) \<and> kept p \<longrightarrow>
            (\<exists>t. at_path (fst (anonymise v pk f r)) p = Some (JStr t) \<and>
                 pseudonym (snd (anonymise v pk f r)) s = Some t \<and>
                 (reg_inv r \<longrightarrow> (\<exists>n\<ge>1. t = cat_prefix (classify s) @ str_nat n)))) \<and>
         ((\<forall>k. Key k \<in> set p \<longrightarrow> lower k \<notin> ANON_BLOCKS \<and> lower k \<notin> PIPELINE_FIELDS) \<longrightarrow>
            at_path (fst (anonymise v pk False r)) p = Some (JStr s))"
proof (intro conjI impI)
  assume h: "(\<exists>k. Key k \<in> set p \<and> lower k \<in> ANON_BLOCKS) \<and>
             (\<forall>k. Key k \<in> set p \<longrightarrow> lower k \<notin> SKIP_KEYS) \<and> kept p"
  then have "forced_path f p" by (auto intro: forced_path_block)
  from forced_leaf [OF assms this, of pk r] h obtain t
    where t: "at_path (fst (anonymise v pk f r)) p = Some (JStr t)"
      "pseudonym (snd (anonymise v pk f r)) s = Some t" by blast
  have "\<exists>n\<ge>1. t = cat_prefix (classify s) @ str_nat n" if "reg_inv r"
  proof -
    from that have "reg_inv (snd (anonymise v pk f r))" by (rule anonymise_inv)
    from pseudonym_token [OF this t(2)] obtain i
      where "t = cat_prefix (classify s) @ str_nat (i + 1)" by blast
    then show ?thesis by (intro exI [of _ "i + 1"]) simp
  qed
  with t show "\<exists>t. at_path (fst (anonymise v pk f r)) p = Some (JStr t) \<and>
                 pseudonym (snd (anonymise v pk f r)) s = Some t \<and>
                 (reg_inv r \<longrightarrow> (\<exists>n\<ge>1. t = cat_prefix (classify s) @ str_nat n))" by blast
next
  assume "\<forall>k. Key k \<in> set p \<longrightarrow> lower k \<notin> ANON_BLOCKS \<and> lower k \<notin> PIPELINE_FIELDS"
  with assms show "at_path (fst (anonymise v pk False r)) p = Some (JStr s)"
    by (rule unforced_leaf)
qed

text \<open>The amended claim at the name of the first contact of the specification's scenario.\<close>

theorem force_propagation_witness:
  "at_path (JDict [(''contacts'', JList [JDict [(''name'', JStr ''Jane Doe''),
                                               (''email'', JStr ''jane@x.com'')]]),
                   (''id'', JStr ''abc-1''), (''notes'', JStr ''see http://x.com'')])
     [Key ''contacts'', Idx 0, Key ''name''] = Some (JStr ''Jane Doe'') \<and>
   (\<exists>t. at_path (fst (anonymise
              (JDict [(''contacts'', JList [JDict [(''name'', JStr ''Jane Doe''),
                                                  (''email'', JStr ''jane@x.com'')]]),
                      (''id'', JStr ''abc-1''), (''notes'', JStr ''see http://x.com'')])
              None False empty_registry)) [Key ''contacts'', Idx 0, Key ''name''] = Some (JStr t) \<and>
        (\<exists>n\<ge>1. t = ''text'' @ str_nat n))"
proof -
  have a: "at_path (JDict [(''contacts'', JList [JDict [(''name'', JStr ''Jane Doe''),
                                               (''email'', JStr ''jane@x.com'')]]),
                   (''id'', JStr ''abc-1''), (''notes'', JStr ''see http://x.com'')])
     [Key ''contacts'', Idx 0, Key ''name''] = Some (JStr ''Jane Doe'')" by simp
  have l: "lower ''contacts'' = ''contacts''" "lower ''name'' = ''name''" by code_simp+
  have b: "''contacts'' \<in> ANON_BLOCKS" by (simp add: ANON_BLOCKS_def)
  have s: "''contacts'' \<notin> SKIP_KEYS" "''name'' \<notin> SKIP_KEYS" by (simp_all add: SKIP_KEYS_def)
  have c: "classify ''Jane Doe'' = Text" by code_simp
  have h: "(\<exists>k. Key k \<in> set [Key ''contacts'', Idx 0, Key ''name''] \<and> lower k \<in> ANON_BLOCKS) \<and>
      (\<forall>k. Key k \<in> set [Key ''contacts'', Idx 0, Key ''name''] \<longrightarrow> lower k \<notin> SKIP_KEYS) \<and>
      kept [Key ''contacts'', Idx 0, Key ''name'']"
    using l b s by auto
  from force_propagation [OF a, of None False empty_registry] h reg_inv_empty c a
  show ?thesis by auto
qed

subsection \<open>C4: shape preservation\<close>

text \<open>
  Claim C4: the output has the same keys in the same order and the same list lengths and
  element order as the input, except for the values of the two truncation fields;
  numbers, booleans and nulls pass through unchanged whatever the forced flag.
\<close>

theorem shape_preserved:
  "same_shape v (fst (anonymise v pk f r)) \<and>
   anonymise JNull pk f r = (JNull, r) \<and>
   anonymise (JBool b) pk f r = (JBool b, r) \<and>
   anonymise (JNum n) pk f r = (JNum n, r)"
  by (simp add: same_shape_anonymise)

text \<open>Claim C4 at a document with a forced block, a truncated list and a number.\<close>

theorem shape_preserved_witness:
  "same_shape
     (JDict [(''contacts'', JList [JDict [(''name'', JStr ''Jane Doe'')]]),
             (''data_files'', JList [JNum 1, JNum 2]), (''n'', JNum 3)])
     (fst (anonymise
        (JDict [(''contacts'', JList [JDict [(''name'', JStr ''Jane Doe'')]]),
                (''data_files'', JList [JNum 1, JNum 2]), (''n'', JNum 3)])
        None False empty_registry))"
  using shape_preserved [of "JDict [(''contacts'', JList [JDict [(''name'', JStr ''Jane Doe'')]]),
             (''data_files'', JList [JNum 1, JNum 2]), (''n'', JNum 3)]" None False empty_registry]
  by simp

subsection \<open>C5: classification\<close>

text \<open>
  Claim C5: a string is classified by the first of the tests email, phone, url that
  succeeds, and as text otherwise; its token is the prefix of that category followed by
  a counter that starts at one. A string of digits that matches the phone pattern is a
  phone, not a text; a string that matches the email pattern is an email also when it
  matches the phone pattern or starts with \<^verbatim>\<open>http\<close>.
\<close>

theorem classification_priority:
  "(reg_inv r \<longrightarrow>
      (\<exists>n\<ge>1. fst (anonymise_string s r) =
         (if re_match EMAIL_REGEX s then ''email''
          else if re_match PHONE_REGEX s then ''phone''
          else if startswith s ''http'' then ''url''
          else ''text'') @ str_nat n)) \<and>
   fst (anonymise_string ''12345678901'' empty_registry) = ''phone1'' \<and>
   fst (anonymise_string ''12345678 a@b.c'' empty_registry) = ''email1'' \<and>
   fst (anonymise_string ''http://a@b.c'' empty_registry) = ''email1''"
proof -
  have "\<exists>n\<ge>1. fst (anonymise_string s r) =
         (if re_match EMAIL_REGEX s then ''email''
          else if re_match PHONE_REGEX s then ''phone''
          else if startswith s ''http'' then ''url''
          else ''text'') @ str_nat n" if inv: "reg_inv r"
  proof -
    obtain t r' where a: "anonymise_string s r = (t, r')" by (cases "anonymise_string s r")
    then have "pseudonym r' s = Some t" by (rule anonymise_string_pseudonym)
    moreover from inv a have "reg_inv r'" using anonymise_string_inv [of r s] by simp
    ultimately obtain i where "t = cat_prefix (classify s) @ str_nat (i + 1)"
      using pseudonym_token by blast
    moreover have "cat_prefix (classify s) =
         (if re_match EMAIL_REGEX s then ''email''
          else if re_match PHONE_REGEX s then ''phone''
          else if startswith s ''http'' then ''url''
          else ''text'')" by (simp add: classify_def)
    ultimately have "fst (anonymise_string s r) =
         (if re_match EMAIL_REGEX s then ''email''
          else if re_match PHONE_REGEX s then ''phone''
          else if startswith s ''http'' then ''url''
          else ''text'') @ str_nat (i + 1)" using a by simp
    then show ?thesis by (intro exI [of _ "i + 1"]) simp
  qed
  moreover have "fst (anonymise_string ''12345678901'' empty_registry) = ''phone1''"
    by code_simp
  moreover have "fst (anonymise_string ''12345678 a@b.c'' empty_registry) = ''email1''"
    by code_simp
  moreover have "fst (anonymise_string ''http://a@b.c'' empty_registry) = ''email1''"
    by code_simp
  ultimately show ?thesis by blast
qed

text \<open>Claim C5 at a phone number, in the empty registry.\<close>

theorem classification_priority_witness:
  "reg_inv empty_registry \<and>
   (\<exists>n\<ge>1. fst (anonymise_string ''+44 20 7946 0958'' empty_registry) = ''phone'' @ str_nat n)"
proof -
  have e: "\<not> re_match EMAIL_REGEX ''+44 20 7946 0958''" by code_simp
  have p: "re_match PHONE_REGEX ''+44 20 7946 0958''" by code_simp
  from classification_priority [of empty_registry "''+44 20 7946 0958''"] reg_inv_empty e p
  show ?thesis by simp
qed

subsection \<open>C6: the same string gets the same token\<close>

text \<open>
  Claim C6: within one run, anonymising a string a second time, after any further
  anonymisation, yields the token of the first time and leaves the registry as it is:
  the registry holds exactly that token for the string.
\<close>

theorem same_string_same_token:
  assumes "anonymise_string s r0 = (t, r1)"
    and "anonymise v pk f r1 = (out, r2)"
    and "anonymise_string s r2 = (t', r3)"
  shows "t' = t \<and> r3 = r2 \<and> pseudonym r3 s = Some t"
proof -
  from assms(1) have "pseudonym r1 s = Some t" by (rule anonymise_string_pseudonym)
  then have "pseudonym (snd (anonymise v pk f r1)) s = Some t" by (rule anonymise_mono)
  with assms(2) have "pseudonym r2 s = Some t" by simp
  then have "anonymise_string s r2 = (t, r2)" by (rule anonymise_string_known)
  with assms(3) \<open>pseudonym r2 s = Some t\<close> show ?thesis by simp
qed

text \<open>Claim C6 at \<^verbatim>\<open>Jane Doe\<close>, anonymised before and after \<^verbatim>\<open>Bob\<close>.\<close>

theorem same_string_same_token_witness:
  "anonymise_string ''Jane Doe'' empty_registry =
     (''text1'', \<lparr>url_map = [], email_map = [], phone_map = [],
                 text_map = [(''Jane Doe'', ''text1'')]\<rparr>) \<and>
   anonymise (JList [JStr ''Bob'']) None True
       \<lparr>url_map = [], email_map = [], phone_map = [], text_map = [(''Jane Doe'', ''text1'')]\<rparr> =
     (JList [JStr ''text2''],
      \<lparr>url_map = [], email_map = [], phone_map = [],
       text_map = [(''Jane Doe'', ''text1''), (''Bob'', ''text2'')]\<rparr>) \<and>
   anonymise_string ''Jane Doe''
       \<lparr>url_map = [], email_map = [], phone_map = [],
        text_map = [(''Jane Doe'', ''text1''), (''Bob'', ''text2'')]\<rparr> =
     (''text1'', \<lparr>url_map = [], email_map = [], phone_map = [],
                 text_map = [(''Jane Doe'', ''text1''), (''Bob'', ''text2'')]\<rparr>)"
proof -
  have h1: "anonymise_string ''Jane Doe'' empty_registry =
     (''text1'', \<lparr>url_map = [], email_map = [], phone_map = [],
                 text_map = [(''Jane Doe'', ''text1'')]\<rparr>)" by code_simp
  have h2: "anonymise (JList [JStr ''Bob'']) None True
       \<lparr>url_map = [], email_map = [], phone_map = [], text_map = [(''Jane Doe'', ''text1'')]\<rparr> =
     (JList [JStr ''text2''],
      \<lparr>url_map = [], email_map = [], phone_map = [],
       text_map = [(''Jane Doe'', ''text1''), (''Bob'', ''text2'')]\<rparr>)" by code_simp
  obtain t' r3 where h3: "anonymise_string ''Jane Doe''
       \<lparr>url_map = [], email_map = [], phone_map = [],
        text_map = [(''Jane Doe'', ''text1''), (''Bob'', ''text2'')]\<rparr> = (t', r3)"
    by (cases "anonymise_string ''Jane Doe''
       \<lparr>url_map = [], email_map = [], phone_map = [],
        text_map = [(''Jane Doe'', ''text1''), (''Bob'', ''text2'')]\<rparr>")
  from same_string_same_token [OF h1 h2 h3] h1 h2 h3 show ?thesis by simp
qed

subsection \<open>C7: injectivity within a category\<close>

text \<open>
  Claim C7: within one run, two distinct strings of the same category get distinct
  tokens; both are the category prefix followed by a counter from one, the counters
  differ, and a string that is new when it is anonymised gets the larger counter.
\<close>

theorem same_category_tokens_differ:
  assumes "reg_inv r0"
    and "anonymise_string a r0 = (ta, r1)"
    and "anonymise v pk f r1 = (out, r2)"
    and "anonymise_string b r2 = (tb, r3)"
    and "classify a = classify b" and "a \<noteq> b"
  shows "ta \<noteq> tb \<and>
     (\<exists>m n. ta = cat_prefix (classify a) @ str_nat m \<and>
            tb = cat_prefix (classify a) @ str_nat n \<and> 1 \<le> m \<and> 1 \<le> n \<and> m \<noteq> n \<and>
            (pseudonym r2 b = None \<longrightarrow> m < n))"
proof -
  from assms(1,2) have i1: "reg_inv r1" using anonymise_string_inv [of r0 a] by simp
  with assms(3) have i2: "reg_inv r2" using anonymise_inv [of r1 v pk f] by simp
  with assms(4) have i3: "reg_inv r3" using anonymise_string_inv [of r2 b] by simp
  from assms(2) have "pseudonym r1 a = Some ta" by (rule anonymise_string_pseudonym)
  then have "pseudonym (snd (anonymise v pk f r1)) a = Some ta" by (rule anonymise_mono)
  with assms(3) have a2: "pseudonym r2 a = Some ta" by simp
  then have "pseudonym (snd (anonymise_string b r2)) a = Some ta" by (rule anonymise_string_mono)
  with assms(4) have a3: "pseudonym r3 a = Some ta" by simp
  from assms(4) have b3: "pseudonym r3 b = Some tb" by (rule anonymise_string_pseudonym)
  have ne: "ta \<noteq> tb" using pseudonym_inj [OF i3 a3] b3 assms(6) by blast
  from pseudonym_token [OF i2 a2] obtain i
    where i: "i < length (cat_map (classify a) r2)" "ta = cat_prefix (classify a) @ str_nat (i + 1)"
    by blast
  from pseudonym_token [OF i3 b3] assms(5) obtain j
    where j: "tb = cat_prefix (classify a) @ str_nat (j + 1)" by auto
  from ne i(2) j have "i + 1 \<noteq> j + 1" by auto
  moreover have "i + 1 < j + 1" if "pseudonym r2 b = None"
  proof -
    from anonymise_string_new [OF that] assms(4,5)
    have "tb = cat_prefix (classify a) @ str_nat (length (cat_map (classify a) r2) + 1)"
      by simp
    with j have "str_nat (j + 1) = str_nat (length (cat_map (classify a) r2) + 1)" by simp
    then have "j + 1 = length (cat_map (classify a) r2) + 1" by (rule str_nat_inj)
    with i(1) show ?thesis by simp
  qed
  ultimately show ?thesis using ne i(2) j by (intro conjI exI [of _ "i + 1"] exI [of _ "j + 1"]) simp_all
qed

text \<open>Claim C7 at two names, with an email address anonymised in between.\<close>

theorem same_category_tokens_differ_witness:
  "reg_inv empty_registry \<and>
   anonymise_string ''Jane Doe'' empty_registry =
     (''text1'', \<lparr>url_map = [], email_map = [], phone_map = [],
                 text_map = [(''Jane Doe'', ''text1'')]\<rparr>) \<and>
   anonymise (JList [JStr ''jane@x.com'']) None True
       \<lparr>url_map = [], email_map = [], phone_map = [], text_map = [(''Jane Doe'', ''text1'')]\<rparr> =
     (JList [JStr ''email1''],
      \<lparr>url_map = [], email_map = [(''jane@x.com'', ''email1'')], phone_map = [],
       text_map = [(''Jane Doe'', ''text1'')]\<rparr>) \<and>
   classify ''Jane Doe'' = classify ''Bob'' \<and>
   (\<exists>tb r3. anonymise_string ''Bob''
       \<lparr>url_map = [], email_map = [(''jane@x.com'', ''email1'')], phone_map = [],
        text_map = [(''Jane Doe'', ''text1'')]\<rparr> = (tb, r3) \<and> ''text1'' \<noteq> tb)"
proof -
  have h1: "anonymise_string ''Jane Doe'' empty_registry =
     (''text1'', \<lparr>url_map = [], email_map = [], phone_map = [],
                 text_map = [(''Jane Doe'', ''text1'')]\<rparr>)" by code_simp
  have h2: "anonymise (JList [JStr ''jane@x.com'']) None True
       \<lparr>url_map = [], email_map = [], phone_map = [], text_map = [(''Jane Doe'', ''text1'')]\<rparr> =
     (JList [JStr ''email1''],
      \<lparr>url_map = [], email_map = [(''jane@x.com'', ''email1'')], phone_map = [],
       text_map = [(''Jane Doe'', ''text1'')]\<rparr>)" by code_simp
  have c: "classify ''Jane Doe'' = classify ''Bob''" by code_simp
  have n: "''Jane Doe'' \<noteq> ''Bob''" by simp
  obtain tb r3 where h3: "anonymise_string ''Bob''
       \<lparr>url_map = [], email_map = [(''jane@x.com'', ''email1'')], phone_map = [],
        text_map = [(''Jane Doe'', ''text1'')]\<rparr> = (tb, r3)"
    by (cases "anonymise_string ''Bob''
       \<lparr>url_map = [], email_map = [(''jane@x.com'', ''email1'')], phone_map = [],
        text_map = [(''Jane Doe'', ''text1'')]\<rparr>")
  from same_category_tokens_differ [OF reg_inv_empty h1 h2 h3 c n]
  have "''text1'' \<noteq> tb" by simp
  with reg_inv_empty h1 h2 h3 c show ?thesis by blast
qed

subsection \<open>C8: totality\<close>




subsection \<open>C10: tokens are unique across categories\<close>

text \<open>
  Claim C10: within one run, two distinct strings get distinct tokens whatever their
  categories; no token of one category equals a token of another one, since no prefix
  followed by anything equals another prefix followed by anything.
\<close>

theorem distinct_strings_distinct_tokens:
  assumes "reg_inv r0"
    and "anonymise_string a r0 = (ta, r1)"
    and "anonymise v pk f r1 = (out, r2)"
    and "anonymise_string b r2 = (tb, r3)"
    and "a \<noteq> b"
  shows "ta \<noteq> tb \<and> (classify a \<noteq> classify b \<longrightarrow> (\<forall>x y. cat_prefix (classify a) @ x \<noteq> cat_prefix (classify b) @ y))"
proof -
  from assms(1,2) have i1: "reg_inv r1" using anonymise_string_inv [of r0 a] by simp
  with assms(3) have i2: "reg_inv r2" using anonymise_inv [of r1 v pk f] by simp
  with assms(4) have i3: "reg_inv r3" using anonymise_string_inv [of r2 b] by simp
  from assms(2) have "pseudonym r1 a = Some ta" by (rule anonymise_string_pseudonym)
  then have "pseudonym (snd (anonymise v pk f r1)) a = Some ta" by (rule anonymise_mono)
  with assms(3) have a2: "pseudonym r2 a = Some ta" by simp
  then have "pseudonym (snd (anonymise_string b r2)) a = Some ta" by (rule anonymise_string_mono)
  with assms(4) have a3: "pseudonym r3 a = Some ta" by simp
  from assms(4) have b3: "pseudonym r3 b = Some tb" by (rule anonymise_string_pseudonym)
  have "ta \<noteq> tb" using pseudonym_inj [OF i3 a3] b3 assms(5) by blast
  then show ?thesis by (auto dest: cat_prefix_inj)
qed

text \<open>Claim C10 at a name and an email address.\<close>

theorem distinct_strings_distinct_tokens_witness:
  "reg_inv empty_registry \<and>
   anonymise_string ''Jane Doe'' empty_registry =
     (''text1'', \<lparr>url_map = [], email_map = [], phone_map = [],
                 text_map = [(''Jane Doe'', ''text1'')]\<rparr>) \<and>
   anonymise (JList [JStr ''Bob'']) None True
       \<lparr>url_map = [], email_map = [], phone_map = [], text_map = [(''Jane Doe'', ''text1'')]\<rparr> =
     (JList [JStr ''text2''],
      \<lparr>url_map = [], email_map = [], phone_map = [],
       text_map = [(''Jane Doe'', ''text1''), (''Bob'', ''text2'')]\<rparr>) \<and>
   (\<exists>tb r3. anonymise_string ''jane@x.com''
       \<lparr>url_map = [], email_map = [], phone_map = [],
        text_map = [(''Jane Doe'', ''text1''), (''Bob'', ''text2'')]\<rparr> = (tb, r3) \<and>
      ''text1'' \<noteq> tb)"
proof -
  have h1: "anonymise_string ''Jane Doe'' empty_registry =
     (''text1'', \<lparr>url_map = [], email_map = [], phone_map = [],
                 text_map = [(''Jane Doe'', ''text1'')]\<rparr>)" by code_simp
  have h2: "anonymise (JList [JStr ''Bob'']) None True
       \<lparr>url_map = [], email_map = [], phone_map = [], text_map = [(''Jane Doe'', ''text1'')]\<rparr> =
     (JList [JStr ''text2''],
      \<lparr>url_map = [], email_map = [], phone_map = [],
       text_map = [(''Jane Doe'', ''text1''), (''Bob'', ''text2'')]\<rparr>)" by code_simp
  have n: "''Jane Doe'' \<noteq> ''jane@x.com''" by simp
  obtain tb r3 where h3: "anonymise_string ''jane@x.com''
       \<lparr>url_map = [], email_map = [], phone_map = [],
        text_map = [(''Jane Doe'', ''text1''), (''Bob'', ''text2'')]\<rparr> = (tb, r3)"
    by (cases "anonymise_string ''jane@x.com''
       \<lparr>url_map = [], email_map = [], phone_map = [],
        text_map = [(''Jane Doe'', ''text1''), (''Bob'', ''text2'')]\<rparr>")
  from distinct_strings_distinct_tokens [OF reg_inv_empty h1 h2 h3 n]
  have "''text1'' \<noteq> tb" by simp
  with reg_inv_empty h1 h2 h3 show ?thesis by blast
qed

end
